theory Spec2Isabelle
  imports Main "HOL-Library.Char_ord"
begin

section \<open>Python values and string primitives\<close>

text \<open>
  \<open>EmailValidator.validate\<close> is called with whatever the caller passes: the tests pass
  \<open>None\<close>, integers, lists and dictionaries besides strings. A value is therefore one of
  the Python types below; a \<open>str\<close> is a list of characters.
\<close>

datatype pyval =
    PNone
  | PBool bool
  | PInt int
  | PStr string
  | PList "pyval list"
  | PDict "(pyval \<times> pyval) list"

text \<open>Python truthiness, as tested by \<open>not email\<close>.\<close>

fun truthy :: "pyval \<Rightarrow> bool" where
  "truthy PNone = False"
| "truthy (PBool b) = b"
| "truthy (PInt i) = (i \<noteq> 0)"
| "truthy (PStr s) = (s \<noteq> [])"
| "truthy (PList xs) = (xs \<noteq> [])"
| "truthy (PDict kvs) = (kvs \<noteq> [])"

text \<open>\<open>type(v).__name__\<close>.\<close>

fun type_name :: "pyval \<Rightarrow> string" where
  "type_name PNone = ''NoneType''"
| "type_name (PBool b) = ''bool''"
| "type_name (PInt i) = ''int''"
| "type_name (PStr s) = ''str''"
| "type_name (PList xs) = ''list''"
| "type_name (PDict kvs) = ''dict''"


text \<open>
  \<open>str.isspace\<close> on one character, for the code points below 256: tab, line feed,
  vertical tab, form feed, carriage return, the separators \<open>0x1C\<close> to \<open>0x1F\<close>, space,
  next-line \<open>0x85\<close> and no-break space \<open>0xA0\<close>.
\<close>

definition isspace :: "char \<Rightarrow> bool" where
  "isspace c \<longleftrightarrow>
     c \<in> set [CHR 0x09, CHR 0x0A, CHR 0x0B, CHR 0x0C, CHR 0x0D, CHR 0x1C, CHR 0x1D,
              CHR 0x1E, CHR 0x1F, CHR 0x20, CHR 0x85, CHR 0xA0]"

text \<open>\<open>s.strip()\<close>: whitespace removed at both ends.\<close>

definition strip :: "string \<Rightarrow> string" where
  "strip s = rev (dropWhile isspace (rev (dropWhile isspace s)))"

text \<open>\<open>s.startswith(p)\<close> and \<open>s.endswith(p)\<close>.\<close>

fun startswith :: "string \<Rightarrow> string \<Rightarrow> bool" where
  "startswith s [] = True"
| "startswith [] (p # ps) = False"
| "startswith (c # cs) (p # ps) = (c = p \<and> startswith cs ps)"

definition endswith :: "string \<Rightarrow> string \<Rightarrow> bool" where
  "endswith s p = startswith (rev s) (rev p)"

text \<open>\<open>sub in s\<close>: \<open>sub\<close> occurs in \<open>s\<close> as a contiguous substring.\<close>

fun str_in :: "string \<Rightarrow> string \<Rightarrow> bool" where
  "str_in sub [] = (sub = [])"
| "str_in sub (c # cs) = (startswith (c # cs) sub \<or> str_in sub cs)"

text \<open>\<open>s.count(c)\<close> for a one-character \<open>c\<close>.\<close>

definition str_count :: "string \<Rightarrow> char \<Rightarrow> nat" where
  "str_count s c = length (filter (\<lambda>x. x = c) s)"

text \<open>
  \<open>s.rsplit(sep, 1)\<close> for a one-character separator: the string is cut at the last
  occurrence of \<open>sep\<close>; without an occurrence the result is the one-element list \<open>[s]\<close>.
\<close>

definition rsplit1 :: "string \<Rightarrow> char \<Rightarrow> string list" where
  "rsplit1 s sep =
     (if sep \<in> set s
      then [rev (tl (dropWhile (\<lambda>c. c \<noteq> sep) (rev s))), rev (takeWhile (\<lambda>c. c \<noteq> sep) (rev s))]
      else [s])"

text \<open>The decimal rendering of a number inside an f-string.\<close>

fun str_nat :: "nat \<Rightarrow> string" where
  "str_nat n =
     (if n < 10 then [char_of (48 + n)] else str_nat (n div 10) @ [char_of (48 + n mod 10)])"

declare str_nat.simps [simp del]

section \<open>Regular expressions\<close>

text \<open>
  The patterns of the source use character classes, alternation, concatenation, \<open>*\<close>,
  \<open>+\<close>, \<open>?\<close> and the bounded repetition \<open>{0,61}\<close>. A character class is a predicate on
  characters.
\<close>

datatype regex =
    Nothing
  | Epsilon
  | Cls "char \<Rightarrow> bool"
  | Alt regex regex
  | Cat regex regex
  | Star regex
  | UpTo nat regex

definition Lit :: "char \<Rightarrow> regex" where
  "Lit c = Cls (\<lambda>x. x = c)"

definition Plus :: "regex \<Rightarrow> regex" where
  "Plus r = Cat r (Star r)"

definition Opt :: "regex \<Rightarrow> regex" where
  "Opt r = Alt r Epsilon"

text \<open>Matching by derivatives: \<open>deriv c r\<close> accepts what \<open>r\<close> accepts after a leading \<open>c\<close>.\<close>

fun nullable :: "regex \<Rightarrow> bool" where
  "nullable Nothing = False"
| "nullable Epsilon = True"
| "nullable (Cls P) = False"
| "nullable (Alt r s) = (nullable r \<or> nullable s)"
| "nullable (Cat r s) = (nullable r \<and> nullable s)"
| "nullable (Star r) = True"
| "nullable (UpTo n r) = True"

fun deriv :: "char \<Rightarrow> regex \<Rightarrow> regex" where
  "deriv c Nothing = Nothing"
| "deriv c Epsilon = Nothing"
| "deriv c (Cls P) = (if P c then Epsilon else Nothing)"
| "deriv c (Alt r s) = Alt (deriv c r) (deriv c s)"
| "deriv c (Cat r s) =
     (if nullable r then Alt (Cat (deriv c r) s) (deriv c s) else Cat (deriv c r) s)"
| "deriv c (Star r) = Cat (deriv c r) (Star r)"
| "deriv c (UpTo 0 r) = Nothing"
| "deriv c (UpTo (Suc n) r) = Cat (deriv c r) (UpTo n r)"

text \<open>The whole string is in the language of the pattern.\<close>

fun fullmatch :: "regex \<Rightarrow> string \<Rightarrow> bool" where
  "fullmatch r [] = nullable r"
| "fullmatch r (c # cs) = fullmatch (deriv c r) cs"

text \<open>
  \<open>re.match\<close> of a pattern that ends in \<open>$\<close>: the pattern is tried from the start of the
  string, and \<open>$\<close> holds at the end of the string and also just before a line feed that
  ends the string.
\<close>

definition dollar_subjects :: "string \<Rightarrow> string list" where
  "dollar_subjects s = (if s \<noteq> [] \<and> last s = CHR 0x0A then [s, butlast s] else [s])"

definition re_match :: "regex \<Rightarrow> string \<Rightarrow> bool" where
  "re_match r s = list_ex (fullmatch r) (dollar_subjects s)"

text \<open>
  The language of a pattern, the reference against which the matcher is proved
  (lemma \<open>fullmatch_lang\<close>).
\<close>

definition lang_cat :: "string set \<Rightarrow> string set \<Rightarrow> string set" where
  "lang_cat A B = {u @ v | u v. u \<in> A \<and> v \<in> B}"

inductive_set lang_star :: "string set \<Rightarrow> string set" for A :: "string set" where
  star_nil: "[] \<in> lang_star A"
| star_app: "u \<in> A \<Longrightarrow> v \<in> lang_star A \<Longrightarrow> u @ v \<in> lang_star A"

primrec lang_upto :: "nat \<Rightarrow> string set \<Rightarrow> string set" where
  "lang_upto 0 A = {[]}"
| "lang_upto (Suc n) A = insert [] (lang_cat A (lang_upto n A))"

primrec lang :: "regex \<Rightarrow> string set" where
  "lang Nothing = {}"
| "lang Epsilon = {[]}"
| "lang (Cls P) = {[c] | c. P c}"
| "lang (Alt r s) = lang r \<union> lang s"
| "lang (Cat r s) = lang_cat (lang r) (lang s)"
| "lang (Star r) = lang_star (lang r)"
| "lang (UpTo n r) = lang_upto n (lang r)"

section \<open>The patterns of the validator\<close>

text \<open>The classes \<open>[a-zA-Z]\<close>, \<open>[a-zA-Z0-9]\<close> and \<open>[a-zA-Z0-9-]\<close>: ASCII ranges.\<close>

definition is_alpha :: "char \<Rightarrow> bool" where
  "is_alpha c \<longleftrightarrow> (CHR ''a'' \<le> c \<and> c \<le> CHR ''z'') \<or> (CHR ''A'' \<le> c \<and> c \<le> CHR ''Z'')"

definition is_alnum :: "char \<Rightarrow> bool" where
  "is_alnum c \<longleftrightarrow> is_alpha c \<or> (CHR ''0'' \<le> c \<and> c \<le> CHR ''9'')"

definition is_alnum_hyphen :: "char \<Rightarrow> bool" where
  "is_alnum_hyphen c \<longleftrightarrow> is_alnum c \<or> c = CHR ''-''"

text \<open>
  The class of the unquoted local part: letters, digits and the characters
  \<open>! # $ % & ' * + / = ? ^ _ ` { | } ~ -\<close>.
\<close>

definition is_atext :: "char \<Rightarrow> bool" where
  "is_atext c \<longleftrightarrow>
     is_alnum c \<or>
     c \<in> set [CHR ''!'', CHR ''#'', CHR ''$'', CHR ''%'', CHR ''&'', CHR 0x27, CHR ''*'',
              CHR ''+'', CHR ''/'', CHR ''='', CHR ''?'', CHR ''^'', CHR ''_'', CHR 0x60,
              CHR ''{'', CHR ''|'', CHR ''}'', CHR ''~'', CHR ''-'']"

text \<open>The dot of a pattern without the DOTALL flag: any character but the line feed.\<close>

definition any_char :: "char \<Rightarrow> bool" where
  "any_char c \<longleftrightarrow> c \<noteq> CHR 0x0A"

text \<open>
  The quoted local part: a double quote, any run of characters that are neither a double
  quote nor a backslash, or of a backslash with the character it escapes, and a double
  quote.
\<close>

definition quoted_re :: regex where
  "quoted_re =
     Cat (Lit (CHR 0x22))
       (Cat (Star (Alt (Cls (\<lambda>c. c \<noteq> CHR 0x22 \<and> c \<noteq> CHR 0x5C))
                       (Cat (Lit (CHR 0x5C)) (Cls any_char))))
            (Lit (CHR 0x22)))"

text \<open>The unquoted local part: atoms separated by single dots.\<close>

definition unquoted_re :: regex where
  "unquoted_re = Cat (Plus (Cls is_atext)) (Star (Cat (Lit (CHR ''.'')) (Plus (Cls is_atext))))"

definition local_re :: regex where
  "local_re = Alt quoted_re unquoted_re"

text \<open>
  A label of the domain: a letter or digit, then optionally up to 61 letters, digits or
  hyphens and a closing letter or digit.
\<close>

definition label_re :: regex where
  "label_re = Cat (Cls is_alnum) (Opt (Cat (UpTo 61 (Cls is_alnum_hyphen)) (Cls is_alnum)))"

text \<open>The domain: one or more labels each followed by a dot, then two or more letters.\<close>

definition domain_re :: regex where
  "domain_re =
     Cat (Plus (Cat label_re (Lit (CHR ''.''))))
         (Cat (Cls is_alpha) (Cat (Cls is_alpha) (Star (Cls is_alpha))))"

definition EMAIL_REGEX :: regex where
  "EMAIL_REGEX = Cat local_re (Cat (Lit (CHR ''@'')) domain_re)"

text \<open>
  The pattern of the diagnostic branch, \<open>.+\.[a-zA-Z]{2,}$\<close>.
\<close>

definition TLD_REGEX :: regex where
  "TLD_REGEX =
     Cat (Plus (Cls any_char))
         (Cat (Lit (CHR ''.'')) (Cat (Cls is_alpha) (Cat (Cls is_alpha) (Star (Cls is_alpha)))))"

text \<open>
  The pattern of the specification for plainly valid addresses,
  \<open>^[A-Za-z0-9]+@[A-Za-z]{2,63}\.[A-Za-z]{2,}$\<close>, written after its words: \<open>{2,63}\<close> is two
  letters and up to 61 more, \<open>{2,}\<close> two letters and any number more.
\<close>

definition SIMPLE_ADDRESS_REGEX :: regex where
  "SIMPLE_ADDRESS_REGEX =
     Cat (Plus (Cls is_alnum))
       (Cat (Lit (CHR ''@''))
          (Cat (Cat (Cls is_alpha) (Cat (Cls is_alpha) (UpTo 61 (Cls is_alpha))))
             (Cat (Lit (CHR ''.''))
                (Cat (Cls is_alpha) (Cat (Cls is_alpha) (Star (Cls is_alpha)))))))"

text \<open>
  \<open>EMAIL_REGEX.match(s)\<close> with its two named groups. Every way of cutting the subject at
  an \<open>@\<close> is a candidate for the literal \<open>@\<close> of the pattern; the match is the first cut
  whose left part is a local part and whose right part is a domain, and the groups
  \<open>local\<close> and \<open>domain\<close> are these two parts. (Lemma \<open>EMAIL_REGEX_match_iff\<close> below: this
  succeeds exactly when the whole pattern matches; lemma \<open>EMAIL_REGEX_match_last_at\<close>: the
  cut is at the last \<open>@\<close>, so the order of the candidates does not matter.)
\<close>

fun at_splits :: "string \<Rightarrow> (string \<times> string) list" where
  "at_splits [] = []"
| "at_splits (c # cs) =
     (if c = CHR ''@'' then [([], cs)] else []) @ map (\<lambda>(l, d). (c # l, d)) (at_splits cs)"

definition EMAIL_REGEX_match :: "string \<Rightarrow> (string \<times> string) option" where
  "EMAIL_REGEX_match s =
     find (\<lambda>(l, d). fullmatch local_re l \<and> fullmatch domain_re d)
          (concat (map at_splits (dollar_subjects s)))"

section \<open>The format validator\<close>

definition MAX_EMAIL_LENGTH :: nat where "MAX_EMAIL_LENGTH = 254"
definition MAX_LOCAL_LENGTH :: nat where "MAX_LOCAL_LENGTH = 64"
definition MAX_DOMAIN_LENGTH :: nat where "MAX_DOMAIN_LENGTH = 255"

text \<open>
  The diagnosis of a string with exactly one \<open>@\<close> that the pattern rejected: one message
  at most for the local part and one at most for the domain.
\<close>

definition diagnose_local :: "string \<Rightarrow> string list" where
  "diagnose_local l =
     (if l = [] then [''Local part (before @) is empty'']
      else if length l > MAX_LOCAL_LENGTH
        then [''Local part exceeds maximum length of '' @ str_nat MAX_LOCAL_LENGTH @ '' characters'']
      else if startswith l ''.'' then [''Local part starts with a dot'']
      else if endswith l ''.'' then [''Local part ends with a dot'']
      else [])"

definition diagnose_domain :: "string \<Rightarrow> string list" where
  "diagnose_domain d =
     (if d = [] then [''Domain part (after @) is empty'']
      else if length d > MAX_DOMAIN_LENGTH
        then [''Domain exceeds maximum length of '' @ str_nat MAX_DOMAIN_LENGTH @ '' characters'']
      else if \<not> re_match TLD_REGEX d
        then (if CHR ''.'' \<notin> set d then [''Domain is missing TLD (top-level domain)'']
              else [''Domain has invalid format''])
      else [])"

text \<open>
  The messages appended when the pattern rejected the string, before the branch returns
  invalid: a missing \<open>@\<close>, nothing more for several \<open>@\<close> (reported earlier), and otherwise
  the diagnosis of the two parts of \<open>rsplit('@', 1)\<close>, when there are two.
\<close>

definition diagnose :: "string \<Rightarrow> string list" where
  "diagnose s =
     (if CHR ''@'' \<notin> set s
        then [''Email is missing '' @ [CHR 0x27, CHR ''@'', CHR 0x27] @ '' symbol'']
      else if str_count s (CHR ''@'') > 1 then []
      else (case rsplit1 s (CHR ''@'') of
              [l, d] \<Rightarrow> diagnose_local l @ diagnose_domain d
            | _ \<Rightarrow> []))"

text \<open>
  \<open>EmailValidator._validate_format\<close>: the triple (valid, errors, warnings).
  \<open>validate_format_str\<close> is the body of the method from the length check on, reached with
  a non-empty string: the checks accumulate their messages in the order of the source, on
  the stripped string once the whitespace check has run.
\<close>

definition validate_format_str :: "string \<Rightarrow> bool \<times> string list \<times> string list" where
  "validate_format_str s0 =
     (let errors1 = (if length s0 > MAX_EMAIL_LENGTH
                     then [''Email exceeds maximum length of '' @ str_nat MAX_EMAIL_LENGTH
                            @ '' characters'']
                     else []);
          stripped = strip s0;
          warnings1 = (if stripped \<noteq> s0
                       then [''Email contains leading or trailing whitespace''] else []);
          s = stripped;
          errors2 = errors1 @ (if str_in ''..'' s then [''Email contains consecutive dots''] else []);
          errors3 = errors2 @ (if str_in '' '' s then [''Email contains spaces''] else []);
          errors4 = errors3 @ (if str_count s (CHR ''@'') > 1
                               then [''Email contains multiple '' @ [CHR 0x27, CHR ''@'', CHR 0x27]
                                      @ '' symbols'']
                               else []);
          errors5 = errors4 @ (if str_in ''@.'' s then [''Domain cannot start with a dot''] else [])
      in case EMAIL_REGEX_match s of
           None \<Rightarrow> (False, errors5 @ diagnose s, warnings1)
         | Some (l, d) \<Rightarrow>
             (let errors6 = errors5 @ (if length l > MAX_LOCAL_LENGTH
                                       then [''Local part exceeds maximum length of ''
                                              @ str_nat MAX_LOCAL_LENGTH @ '' characters'']
                                       else []);
                  warnings2 = warnings1 @ (if startswith l [CHR 0x22] \<and> endswith l [CHR 0x22]
                                           then [''Quoted local part detected - may not be supported by all mail servers'']
                                           else []);
                  warnings3 = warnings2 @ (if CHR ''+'' \<in> set l
                                           then [''Plus addressing detected - ensure your system supports this'']
                                           else [])
              in (errors6 = [], errors6, warnings3)))"

text \<open>
  The two early returns: a falsy value of any type is reported as empty, before the type
  is looked at; a truthy value that is not a \<open>str\<close> is reported with the name of its type.
\<close>

definition validate_format :: "pyval \<Rightarrow> bool \<times> string list \<times> string list" where
  "validate_format v =
     (if \<not> truthy v then (False, [''Email address is empty''], [])
      else case v of
             PStr s0 \<Rightarrow> validate_format_str s0
           | _ \<Rightarrow> (False, [''Email must be a string, got '' @ type_name v], []))"

section \<open>The DNS services\<close>

text \<open>
  A call of \<open>check_mx_record\<close> either returns a boolean or raises an exception \<open>e\<close>, of
  which the validator reads \<open>str(e)\<close>.
\<close>

datatype mx_reply = Returns bool | Raises string

text \<open>
  The objects a validator is configured with.
  \<^item> \<open>DNSService\<close>, the live resolver: both of its lookup paths catch every exception and
    return a boolean, so the answer of the network for a domain is a function taken as a
    parameter.
  \<^item> \<open>MockDNSService\<close>: the dictionary \<open>responses\<close> and the list \<open>call_history\<close>.
  \<^item> \<open>StubService\<close>: any other object with a \<open>check_mx_record\<close> method that depends on the
    domain only (the tests pass \<open>unittest.mock\<close> objects that return a fixed value or
    raise).
\<close>

datatype dns_service =
    DNSService "string \<Rightarrow> bool"
  | MockDNSService "string \<rightharpoonup> bool" "(string \<times> string) list"
  | StubService "string \<Rightarrow> mx_reply"

text \<open>
  \<open>check_mx_record(domain)\<close>: the reply and the service after the call. The mock appends
  the call to its history and answers \<open>responses.get(domain, False)\<close>.
\<close>

fun check_mx_record :: "dns_service \<Rightarrow> string \<Rightarrow> mx_reply \<times> dns_service" where
  "check_mx_record (DNSService net) d = (Returns (net d), DNSService net)"
| "check_mx_record (MockDNSService responses history) d =
     (Returns (case responses d of None \<Rightarrow> False | Some b \<Rightarrow> b),
      MockDNSService responses (history @ [(''check_mx_record'', d)]))"
| "check_mx_record (StubService f) d = (f d, StubService f)"

fun call_history :: "dns_service \<Rightarrow> (string \<times> string) list" where
  "call_history (MockDNSService responses history) = history"
| "call_history _ = []"

text \<open>
  \<open>MockDNSService.reset_history\<close> empties the history; the other services keep none, and
  are left as they are.
\<close>

fun reset_history :: "dns_service \<Rightarrow> dns_service" where
  "reset_history (MockDNSService responses history) = MockDNSService responses []"
| "reset_history svc = svc"

section \<open>The validator\<close>

record ValidationResult =
  is_valid :: bool
  email :: pyval
  errors :: "string list"
  warnings :: "string list"
  mx_valid :: "bool option"

record EmailValidator =
  check_mx :: bool
  dns_service :: "dns_service option"

text \<open>
  \<open>EmailValidator._check_mx_record\<close>: (mx_valid, errors), and the validator after the
  call, whose service may have recorded it. The domain handed to the service is the last
  element of \<open>email.rsplit('@', 1)\<close>.
\<close>

definition validator_check_mx_record ::
  "EmailValidator \<Rightarrow> string \<Rightarrow> (bool option \<times> string list) \<times> EmailValidator" where
  "validator_check_mx_record v s =
     (case dns_service v of
        None \<Rightarrow> ((None, [''DNS service not configured for MX record checking'']), v)
      | Some svc \<Rightarrow>
          (let d = last (rsplit1 s (CHR ''@''))
           in case check_mx_record svc d of
                (Returns b, svc') \<Rightarrow> ((Some b, []), v\<lparr>dns_service := Some svc'\<rparr>)
              | (Raises msg, svc') \<Rightarrow>
                  ((None, [''DNS lookup failed: '' @ msg]), v\<lparr>dns_service := Some svc'\<rparr>)))"

text \<open>
  \<open>EmailValidator.validate\<close>. The MX step runs only behind \<open>format_valid and check_mx\<close>;
  a valid format is the format of a string, and the step receives that string as the
  caller passed it.
\<close>

definition validate :: "EmailValidator \<Rightarrow> pyval \<Rightarrow> ValidationResult \<times> EmailValidator" where
  "validate v e =
     (case validate_format e of
        (format_valid, errs, warns) \<Rightarrow>
          (case (if format_valid \<and> check_mx v
                 then (case e of
                         PStr s \<Rightarrow>
                           (case validator_check_mx_record v s of
                              ((mx, mx_errors), v') \<Rightarrow>
                                (mx, errs @ mx_errors,
                                 warns @ (if mx = Some False then [''No MX record found for domain'']
                                          else []),
                                 v'))
                       | _ \<Rightarrow> (None, errs, warns, v))
                 else (None, errs, warns, v)) of
             (mx, errs', warns', v') \<Rightarrow>
               (\<lparr>is_valid = (format_valid \<and> (mx = None \<or> mx = Some True)),
                 email = e, errors = errs', warnings = warns', mx_valid = mx\<rparr>, v')))"

text \<open>
  The configuration of a validator: the validator with the history of its service reset.
  Two validators with the same configuration differ in what has been recorded only.
\<close>

definition configuration :: "EmailValidator \<Rightarrow> EmailValidator" where
  "configuration v = v\<lparr>dns_service := map_option reset_history (dns_service v)\<rparr>"

text \<open>\<open>EmailValidator.validate_batch\<close>: the list comprehension, left to right.\<close>

fun validate_batch :: "EmailValidator \<Rightarrow> pyval list \<Rightarrow> ValidationResult list \<times> EmailValidator" where
  "validate_batch v [] = ([], v)"
| "validate_batch v (e # es) =
     (case validate v e of
        (r, v') \<Rightarrow> (case validate_batch v' es of (rs, v'') \<Rightarrow> (r # rs, v'')))"

text \<open>\<open>EmailValidator.is_valid\<close>.\<close>

definition validator_is_valid :: "EmailValidator \<Rightarrow> pyval \<Rightarrow> bool \<times> EmailValidator" where
  "validator_is_valid v e = (case validate v e of (r, v') \<Rightarrow> (is_valid r, v'))"

section \<open>The matcher decides the language\<close>

lemma Cons_in_lang_cat:
  "c # w \<in> lang_cat A B \<longleftrightarrow>
     ([] \<in> A \<and> c # w \<in> B) \<or> (\<exists>u v. w = u @ v \<and> c # u \<in> A \<and> v \<in> B)"
  unfolding lang_cat_def by (auto simp: Cons_eq_append_conv)

lemma Nil_in_lang_cat: "[] \<in> lang_cat A B \<longleftrightarrow> [] \<in> A \<and> [] \<in> B"
  by (auto simp: lang_cat_def)

lemma Cons_in_lang_star_D:
  "x \<in> lang_star A \<Longrightarrow> x = c # w \<Longrightarrow> \<exists>u v. w = u @ v \<and> c # u \<in> A \<and> v \<in> lang_star A"
proof (induction arbitrary: w rule: lang_star.induct)
  case star_nil
  then show ?case by simp
next
  case (star_app u v)
  show ?case
  proof (cases u)
    case Nil
    with star_app show ?thesis by simp
  next
    case (Cons a u')
    with star_app.prems have "a = c" "w = u' @ v" by simp_all
    with Cons star_app.hyps show ?thesis by blast
  qed
qed

lemma Cons_in_lang_star:
  "c # w \<in> lang_star A \<longleftrightarrow> (\<exists>u v. w = u @ v \<and> c # u \<in> A \<and> v \<in> lang_star A)"
proof
  assume "c # w \<in> lang_star A"
  then show "\<exists>u v. w = u @ v \<and> c # u \<in> A \<and> v \<in> lang_star A"
    by (rule Cons_in_lang_star_D) simp
next
  assume "\<exists>u v. w = u @ v \<and> c # u \<in> A \<and> v \<in> lang_star A"
  then obtain u v where "w = u @ v" "c # u \<in> A" "v \<in> lang_star A" by blast
  then show "c # w \<in> lang_star A"
    using lang_star.star_app [of "c # u" A v] by simp
qed

lemma Nil_in_lang_upto: "[] \<in> lang_upto n A"
  by (cases n) simp_all

lemma lang_upto_mono: "lang_upto n A \<subseteq> lang_upto (Suc n) A"
proof (induction n)
  case 0
  show ?case by simp
next
  case (Suc n)
  have "lang_cat A (lang_upto n A) \<subseteq> lang_cat A (lang_upto (Suc n) A)"
    using Suc unfolding lang_cat_def by blast
  then show ?case by auto
qed

text \<open>
  With a body that accepts the empty string, a bounded repetition can spend a round on
  nothing; the word is then already in the repetition with one round less, and that one
  is contained in the larger.
\<close>

lemma Cons_in_lang_upto_nullable:
  "[] \<in> A \<Longrightarrow> c # w \<in> lang_upto n A \<Longrightarrow>
     \<exists>u v. w = u @ v \<and> c # u \<in> A \<and> v \<in> lang_upto n A"
proof (induction n)
  case 0
  then show ?case by simp
next
  case (Suc n)
  from Suc.prems(2) have "c # w \<in> lang_cat A (lang_upto n A)" by simp
  then consider "c # w \<in> lang_upto n A"
    | u v where "w = u @ v" "c # u \<in> A" "v \<in> lang_upto n A"
    by (auto simp: Cons_in_lang_cat)
  then show ?case
  proof cases
    case 1
    with Suc obtain u v where "w = u @ v" "c # u \<in> A" "v \<in> lang_upto n A" by blast
    then show ?thesis using lang_upto_mono [of n A] by blast
  next
    case 2
    then show ?thesis using lang_upto_mono [of n A] by blast
  qed
qed

lemma Cons_in_lang_upto:
  "c # w \<in> lang_upto (Suc n) A \<longleftrightarrow> (\<exists>u v. w = u @ v \<and> c # u \<in> A \<and> v \<in> lang_upto n A)"
proof
  assume a: "c # w \<in> lang_upto (Suc n) A"
  then have "c # w \<in> lang_cat A (lang_upto n A)" by simp
  then consider "[] \<in> A" "c # w \<in> lang_upto n A"
    | "\<exists>u v. w = u @ v \<and> c # u \<in> A \<and> v \<in> lang_upto n A"
    by (auto simp: Cons_in_lang_cat)
  then show "\<exists>u v. w = u @ v \<and> c # u \<in> A \<and> v \<in> lang_upto n A"
    by cases (auto dest: Cons_in_lang_upto_nullable)
next
  assume "\<exists>u v. w = u @ v \<and> c # u \<in> A \<and> v \<in> lang_upto n A"
  then show "c # w \<in> lang_upto (Suc n) A"
    by (auto simp: Cons_in_lang_cat)
qed

lemma nullable_lang: "nullable r \<longleftrightarrow> [] \<in> lang r"
  by (induction r) (auto simp: Nil_in_lang_cat Nil_in_lang_upto intro: lang_star.star_nil)

lemma lang_cat_left_quotient:
  "lang_cat {x. c # x \<in> A} B = {w. \<exists>u v. w = u @ v \<and> c # u \<in> A \<and> v \<in> B}"
  by (auto simp: lang_cat_def)

lemma deriv_lang: "lang (deriv c r) = {w. c # w \<in> lang r}"
proof (induction r)
  case (Cat r s)
  then show ?case
    by (auto simp: lang_cat_left_quotient Cons_in_lang_cat nullable_lang)
next
  case (Star r)
  then show ?case
    by (auto simp: lang_cat_left_quotient Cons_in_lang_star)
next
  case (UpTo n r)
  show ?case
  proof (cases n)
    case 0
    then show ?thesis by simp
  next
    case (Suc m)
    have "lang (deriv c (UpTo (Suc m) r)) = {w. c # w \<in> lang_upto (Suc m) (lang r)}"
      unfolding Cons_in_lang_upto using UpTo by (simp add: lang_cat_left_quotient)
    with Suc show ?thesis by simp
  qed
qed auto

lemma fullmatch_lang: "fullmatch r w \<longleftrightarrow> w \<in> lang r"
  by (induction w arbitrary: r) (simp_all add: nullable_lang deriv_lang)

section \<open>The shape of a format result\<close>

lemma validate_format_str_shape:
  "\<exists>E W. validate_format_str s = (False, E, W) \<or> validate_format_str s = (E = [], E, W)"
proof (cases "EMAIL_REGEX_match (strip s)")
  case None
  show ?thesis
    unfolding validate_format_str_def Let_def None option.case by blast
next
  case (Some p)
  obtain l d where p: "p = (l, d)" by (cases p)
  show ?thesis
    unfolding validate_format_str_def Let_def Some p option.case prod.case by blast
qed

lemma format_str_valid_no_errors:
  "fst (validate_format_str s) \<Longrightarrow> fst (snd (validate_format_str s)) = []"
  using validate_format_str_shape [of s] by auto

lemma format_valid_no_errors:
  "fst (validate_format e) \<Longrightarrow> fst (snd (validate_format e)) = []"
  by (cases e) (simp_all add: validate_format_def format_str_valid_no_errors split: if_splits)

lemma format_valid_is_str: "fst (validate_format e) \<Longrightarrow> \<exists>s. e = PStr s"
  by (cases e) (simp_all add: validate_format_def split: if_splits)

section \<open>The validator and the history of its service\<close>

lemma check_mx_record_reset:
  "fst (check_mx_record (reset_history svc) d) = fst (check_mx_record svc d)"
  "reset_history (snd (check_mx_record svc d)) = reset_history svc"
  by (cases svc; simp)+

lemma check_mx_record_same_reply:
  "reset_history svc' = reset_history svc \<Longrightarrow>
     fst (check_mx_record svc' d) = fst (check_mx_record svc d)"
  using check_mx_record_reset(1) [of svc d] check_mx_record_reset(1) [of svc' d] by simp

lemma validator_check_mx_record_same:
  assumes "configuration v' = configuration v"
  shows "fst (validator_check_mx_record v' s) = fst (validator_check_mx_record v s)"
proof (cases "dns_service v")
  case None
  with assms have "dns_service v' = None"
    by (auto simp: configuration_def dest!: arg_cong [where f = dns_service])
  with None show ?thesis by (simp add: validator_check_mx_record_def)
next
  case (Some svc)
  with assms obtain svc' where s': "dns_service v' = Some svc'" and r: "reset_history svc' = reset_history svc"
    by (auto simp: configuration_def dest!: arg_cong [where f = dns_service])
  show ?thesis
    using check_mx_record_same_reply [OF r, of "last (rsplit1 s (CHR ''@''))"]
    by (auto simp: validator_check_mx_record_def Some s' Let_def split: prod.splits mx_reply.splits)
qed

lemma validator_check_mx_record_configuration:
  "configuration (snd (validator_check_mx_record v s)) = configuration v"
proof (cases "dns_service v")
  case None
  then show ?thesis by (simp add: validator_check_mx_record_def)
next
  case (Some svc)
  then show ?thesis
    using check_mx_record_reset(2) [of svc "last (rsplit1 s (CHR ''@''))"]
    by (auto simp: validator_check_mx_record_def configuration_def Let_def
             split: prod.splits mx_reply.splits)
qed

lemma validate_skip_mx:
  "\<not> (fst (validate_format e) \<and> check_mx v) \<Longrightarrow>
     validate v e =
       (\<lparr>is_valid = fst (validate_format e), email = e, errors = fst (snd (validate_format e)),
         warnings = snd (snd (validate_format e)), mx_valid = None\<rparr>, v)"
  by (cases "validate_format e") (auto simp: validate_def)

lemma validate_with_mx:
  "fst (validate_format (PStr s)) \<Longrightarrow> check_mx v \<Longrightarrow>
     validate v (PStr s) =
       (\<lparr>is_valid = (fst (fst (validator_check_mx_record v s)) = None \<or>
                     fst (fst (validator_check_mx_record v s)) = Some True),
         email = PStr s,
         errors = fst (snd (validate_format (PStr s))) @ snd (fst (validator_check_mx_record v s)),
         warnings = snd (snd (validate_format (PStr s))) @
           (if fst (fst (validator_check_mx_record v s)) = Some False
            then [''No MX record found for domain''] else []),
         mx_valid = fst (fst (validator_check_mx_record v s))\<rparr>,
        snd (validator_check_mx_record v s))"
  by (cases "validate_format (PStr s)"; cases "validator_check_mx_record v s")
     (auto simp: validate_def)

lemma validate_same_result:
  assumes "configuration v' = configuration v"
  shows "fst (validate v' e) = fst (validate v e)"
proof (cases "fst (validate_format e) \<and> check_mx v")
  case False
  moreover from assms have c: "check_mx v' = check_mx v"
    by (auto simp: configuration_def dest!: arg_cong [where f = check_mx])
  ultimately show ?thesis by (simp add: validate_skip_mx)
next
  case True
  from assms have c: "check_mx v' = check_mx v"
    by (auto simp: configuration_def dest!: arg_cong [where f = check_mx])
  from True obtain s where e: "e = PStr s" by (auto dest: format_valid_is_str)
  from True c show ?thesis
    unfolding e by (simp add: validate_with_mx validator_check_mx_record_same [OF assms])
qed

lemma validate_configuration: "configuration (snd (validate v e)) = configuration v"
proof (cases "fst (validate_format e) \<and> check_mx v")
  case False
  then show ?thesis by (simp add: validate_skip_mx)
next
  case True
  then obtain s where e: "e = PStr s" by (auto dest: format_valid_is_str)
  from True show ?thesis
    unfolding e by (simp add: validate_with_mx validator_check_mx_record_configuration)
qed

lemma validate_batch_same_result:
  "configuration v' = configuration v \<Longrightarrow>
     fst (validate_batch v' L) = map (\<lambda>e. fst (validate v e)) L"
proof (induction L arbitrary: v')
  case Nil
  show ?case by simp
next
  case (Cons e es)
  have "configuration (snd (validate v' e)) = configuration v"
    using Cons.prems by (simp add: validate_configuration)
  from Cons.IH [OF this] validate_same_result [OF Cons.prems, of e]
  show ?case
    by (cases "validate v' e"; cases "validate_batch (snd (validate v' e)) es") simp
qed

section \<open>Where a valid address is cut\<close>

lemma at_splits_iff: "(l, d) \<in> set (at_splits u) \<longleftrightarrow> u = l @ CHR ''@'' # d"
proof (induction u arbitrary: l)
  case Nil
  show ?case by simp
next
  case (Cons c cs)
  show ?case
  proof (cases l)
    case Nil
    then show ?thesis by auto
  next
    case l: (Cons a l')
    have "(a # l', d) \<in> set (at_splits (c # cs)) \<longleftrightarrow> a = c \<and> (l', d) \<in> set (at_splits cs)"
      by force
    with l show ?thesis by (auto simp: Cons.IH)
  qed
qed

lemma find_Some_set: "find P xs = Some x \<Longrightarrow> x \<in> set xs \<and> P x"
  by (induction xs) (auto split: if_splits)

lemma set_dollar_subjects: "u \<in> set (dollar_subjects t) \<Longrightarrow> set u \<subseteq> set t"
  by (auto simp: dollar_subjects_def split: if_splits dest: in_set_butlastD)

lemma EMAIL_REGEX_match_has_at:
  assumes "EMAIL_REGEX_match t = Some p"
  shows "CHR ''@'' \<in> set t"
proof -
  from assms have "p \<in> set (concat (map at_splits (dollar_subjects t)))"
    unfolding EMAIL_REGEX_match_def by (blast dest: find_Some_set)
  then obtain u where u: "u \<in> set (dollar_subjects t)" and p: "p \<in> set (at_splits u)"
    by auto
  obtain l d where "p = (l, d)" by (cases p)
  with p have "u = l @ CHR ''@'' # d" by (simp add: at_splits_iff)
  then have "CHR ''@'' \<in> set u" by simp
  with set_dollar_subjects [OF u] show ?thesis by blast
qed

lemma set_strip: "set (strip s) \<subseteq> set s"
  by (auto simp: strip_def dest!: set_dropWhileD)

lemma format_str_valid_match:
  "fst (validate_format_str s) \<Longrightarrow> \<exists>p. EMAIL_REGEX_match (strip s) = Some p"
proof (cases "EMAIL_REGEX_match (strip s)")
  case None
  have "\<not> fst (validate_format_str s)"
    unfolding validate_format_str_def Let_def None option.case by simp
  then show "fst (validate_format_str s) \<Longrightarrow> ?thesis" by simp
next
  case (Some p)
  then show "fst (validate_format_str s) \<Longrightarrow> ?thesis" by simp
qed

lemma format_valid_has_at:
  assumes "fst (validate_format (PStr s))"
  shows "CHR ''@'' \<in> set s"
proof -
  from assms have "fst (validate_format_str s)"
    by (simp add: validate_format_def split: if_splits)
  then obtain p where "EMAIL_REGEX_match (strip s) = Some p"
    by (auto dest: format_str_valid_match)
  then have "CHR ''@'' \<in> set (strip s)" by (rule EMAIL_REGEX_match_has_at)
  with set_strip show ?thesis by blast
qed

lemma rsplit1_last:
  assumes "c \<in> set s"
  shows "\<exists>l. s = l @ c # last (rsplit1 s c) \<and> c \<notin> set (last (rsplit1 s c))"
proof -
  let ?P = "\<lambda>x. x \<noteq> c"
  let ?tk = "takeWhile ?P (rev s)" and ?dw = "dropWhile ?P (rev s)"
  from assms have ne: "?dw \<noteq> []" by auto
  then have hd: "hd ?dw = c" using hd_dropWhile [of ?P "rev s"] by simp
  have "rev s = ?tk @ ?dw" by simp
  also have "?dw = c # tl ?dw" using ne hd by (cases ?dw) simp_all
  finally have "rev (rev s) = rev (?tk @ c # tl ?dw)" by simp
  then have s: "s = rev (tl ?dw) @ c # rev ?tk" by simp
  have "c \<notin> set (rev ?tk)" by (auto dest: set_takeWhileD)
  moreover from assms have "last (rsplit1 s c) = rev ?tk" by (simp add: rsplit1_def)
  ultimately show ?thesis using s by auto
qed

section \<open>Character classes and their repetitions\<close>

lemma is_alpha_alnum: "is_alpha c \<Longrightarrow> is_alnum c"
  by (simp add: is_alnum_def)

lemma is_alnum_atext: "is_alnum c \<Longrightarrow> is_atext c"
  by (simp add: is_atext_def)

lemma is_alnum_hyphen: "is_alnum c \<Longrightarrow> is_alnum_hyphen c"
  by (simp add: is_alnum_hyphen_def)

lemma not_alnum_special:
  "\<not> is_alnum (CHR ''@'')" "\<not> is_alnum (CHR ''.'')" "\<not> is_alnum (CHR '' '')"
  "\<not> is_alnum (CHR 0x0A)"
  by code_simp+

lemma isspace_not_alnum: "isspace c \<Longrightarrow> \<not> is_alnum c"
  unfolding isspace_def by (auto simp: is_alnum_def is_alpha_def less_eq_char_def)

lemma lang_cat_single:
  "lang_cat {[c] | c. P c} B = {c # w | c w. P c \<and> w \<in> B}" (is "?L = ?R")
proof
  show "?L \<subseteq> ?R" by (auto simp: lang_cat_def)
  show "?R \<subseteq> ?L"
  proof
    fix x assume "x \<in> ?R"
    then obtain c w where x: "x = [c] @ w" "P c" "w \<in> B" by auto
    then have "[c] \<in> {[c] | c. P c}" by blast
    with x show "x \<in> ?L" unfolding lang_cat_def by blast
  qed
qed

lemma lang_cat_cls: "lang (Cat (Cls P) r) = {c # w | c w. P c \<and> w \<in> lang r}"
  by (simp add: lang_cat_single)

lemma lang_star_cls: "lang (Star (Cls P)) = {w. list_all P w}"
proof (intro set_eqI iffI CollectI)
  fix w assume "w \<in> lang (Star (Cls P))"
  then have "w \<in> lang_star {[c] | c. P c}" by simp
  then show "list_all P w" by induction auto
next
  fix w assume "w \<in> {w. list_all P w}"
  then have "list_all P w" by simp
  then have "w \<in> lang_star {[c] | c. P c}"
  proof (induction w)
    case Nil
    show ?case by (rule lang_star.star_nil)
  next
    case (Cons c w)
    then have "[c] \<in> {[c] | c. P c}" "w \<in> lang_star {[c] | c. P c}" by auto
    from lang_star.star_app [OF this] show ?case by simp
  qed
  then show "w \<in> lang (Star (Cls P))" by simp
qed

lemma lang_plus_cls: "lang (Plus (Cls P)) = {w. w \<noteq> [] \<and> list_all P w}"
proof -
  have "lang (Plus (Cls P)) = {c # w | c w. P c \<and> w \<in> lang (Star (Cls P))}"
    unfolding Plus_def by (rule lang_cat_cls)
  also have "\<dots> = {w. w \<noteq> [] \<and> list_all P w}"
    unfolding lang_star_cls by (auto simp: neq_Nil_conv)
  finally show ?thesis .
qed

lemma lang_upto_cls: "lang (UpTo n (Cls P)) = {w. length w \<le> n \<and> list_all P w}"
proof (induction n)
  case 0
  show ?case by auto
next
  case (Suc n)
  have "lang (UpTo (Suc n) (Cls P)) = insert [] {c # w | c w. P c \<and> w \<in> lang (UpTo n (Cls P))}"
    by (simp add: lang_cat_single)
  also have "\<dots> = {w. length w \<le> Suc n \<and> list_all P w}"
    unfolding Suc
  proof (intro set_eqI iffI)
    fix x assume "x \<in> insert [] {c # w | c w. P c \<and> w \<in> {w. length w \<le> n \<and> list_all P w}}"
    then show "x \<in> {w. length w \<le> Suc n \<and> list_all P w}" by auto
  next
    fix x assume "x \<in> {w. length w \<le> Suc n \<and> list_all P w}"
    then show "x \<in> insert [] {c # w | c w. P c \<and> w \<in> {w. length w \<le> n \<and> list_all P w}}"
      by (cases x) auto
  qed
  finally show ?case .
qed

lemma lang_Lit: "lang (Lit c) = {[c]}"
  by (auto simp: Lit_def)

lemma lang_two_upto:
  "lang (Cat (Cls P) (Cat (Cls P) (UpTo n (Cls P)))) =
     {w. 2 \<le> length w \<and> length w \<le> n + 2 \<and> list_all P w}"
proof (intro set_eqI iffI)
  fix x assume "x \<in> lang (Cat (Cls P) (Cat (Cls P) (UpTo n (Cls P))))"
  then show "x \<in> {w. 2 \<le> length w \<and> length w \<le> n + 2 \<and> list_all P w}"
    unfolding lang_cat_cls lang_upto_cls by auto
next
  fix x assume "x \<in> {w. 2 \<le> length w \<and> length w \<le> n + 2 \<and> list_all P w}"
  then obtain a b w where "x = a # b # w" "P a" "P b" "length w \<le> n" "list_all P w"
    by (cases x; cases "tl x") auto
  then show "x \<in> lang (Cat (Cls P) (Cat (Cls P) (UpTo n (Cls P))))"
    unfolding lang_cat_cls lang_upto_cls by auto
qed

lemma lang_two_star:
  "lang (Cat (Cls P) (Cat (Cls P) (Star (Cls P)))) = {w. 2 \<le> length w \<and> list_all P w}"
proof (intro set_eqI iffI)
  fix x assume "x \<in> lang (Cat (Cls P) (Cat (Cls P) (Star (Cls P))))"
  then show "x \<in> {w. 2 \<le> length w \<and> list_all P w}"
    unfolding lang_cat_cls lang_star_cls by auto
next
  fix x assume "x \<in> {w. 2 \<le> length w \<and> list_all P w}"
  then obtain a b w where "x = a # b # w" "P a" "P b" "list_all P w"
    by (cases x; cases "tl x") auto
  then show "x \<in> lang (Cat (Cls P) (Cat (Cls P) (Star (Cls P))))"
    unfolding lang_cat_cls lang_star_cls by auto
qed

lemma in_lang_Cat: "w \<in> lang (Cat r s) \<longleftrightarrow> (\<exists>u v. w = u @ v \<and> u \<in> lang r \<and> v \<in> lang s)"
  by (auto simp: lang_cat_def)

lemma simple_address_shape:
  assumes "s \<in> lang SIMPLE_ADDRESS_REGEX"
  shows "\<exists>l d1 d2. s = l @ CHR ''@'' # d1 @ CHR ''.'' # d2 \<and>
           l \<noteq> [] \<and> list_all is_alnum l \<and>
           2 \<le> length d1 \<and> length d1 \<le> 63 \<and> list_all is_alpha d1 \<and>
           2 \<le> length d2 \<and> list_all is_alpha d2"
proof -
  from assms obtain l x1 where s: "s = l @ x1" and l: "l \<in> lang (Plus (Cls is_alnum))"
    and x1: "x1 \<in> lang (Cat (Lit (CHR ''@''))
          (Cat (Cat (Cls is_alpha) (Cat (Cls is_alpha) (UpTo 61 (Cls is_alpha))))
             (Cat (Lit (CHR ''.''))
                (Cat (Cls is_alpha) (Cat (Cls is_alpha) (Star (Cls is_alpha)))))))"
    unfolding SIMPLE_ADDRESS_REGEX_def in_lang_Cat [of s] by blast
  from x1 obtain x2 where x1': "x1 = CHR ''@'' # x2"
    and x2: "x2 \<in> lang (Cat (Cat (Cls is_alpha) (Cat (Cls is_alpha) (UpTo 61 (Cls is_alpha))))
             (Cat (Lit (CHR ''.''))
                (Cat (Cls is_alpha) (Cat (Cls is_alpha) (Star (Cls is_alpha))))))"
    unfolding in_lang_Cat [of x1] lang_Lit by auto
  from x2 obtain d1 x3 where x2': "x2 = d1 @ x3"
    and d1: "d1 \<in> lang (Cat (Cls is_alpha) (Cat (Cls is_alpha) (UpTo 61 (Cls is_alpha))))"
    and x3: "x3 \<in> lang (Cat (Lit (CHR ''.''))
                (Cat (Cls is_alpha) (Cat (Cls is_alpha) (Star (Cls is_alpha)))))"
    unfolding in_lang_Cat [of x2] by blast
  from x3 obtain d2 where x3': "x3 = CHR ''.'' # d2"
    and d2: "d2 \<in> lang (Cat (Cls is_alpha) (Cat (Cls is_alpha) (Star (Cls is_alpha))))"
    unfolding in_lang_Cat [of x3] lang_Lit by auto
  from l [unfolded lang_plus_cls] have "l \<noteq> []" "list_all is_alnum l" by simp_all
  moreover from d1 [unfolded lang_two_upto]
  have "2 \<le> length d1" "length d1 \<le> 63" "list_all is_alpha d1" by simp_all
  moreover from d2 [unfolded lang_two_star]
  have "2 \<le> length d2" "list_all is_alpha d2" by simp_all
  moreover have "s = l @ CHR ''@'' # d1 @ CHR ''.'' # d2"
    by (simp add: s x1' x2' x3')
  ultimately show ?thesis by blast
qed

lemma local_part_in_lang:
  assumes "l \<noteq> []" and "list_all is_alnum l"
  shows "l \<in> lang local_re"
proof -
  from assms(2) have "list_all is_atext l"
    by (auto simp: list_all_iff is_alnum_atext)
  with assms(1) have "l \<in> lang (Plus (Cls is_atext))" unfolding lang_plus_cls by simp
  moreover have "[] \<in> lang (Star (Cat (Lit (CHR ''.'')) (Plus (Cls is_atext))))"
    by (simp add: lang_star.star_nil)
  ultimately have "l @ [] \<in> lang unquoted_re"
    unfolding unquoted_re_def in_lang_Cat by blast
  then show ?thesis by (simp add: local_re_def)
qed

lemma label_in_lang:
  assumes "2 \<le> length d" and "length d \<le> 63" and "list_all is_alpha d"
  shows "d \<in> lang label_re"
proof -
  from assms(1) obtain a m z where d: "d = a # m @ [z]"
    by (cases d; cases "tl d" rule: rev_cases) auto
  with assms have a: "is_alnum a" and z: "is_alnum z" and m: "list_all is_alnum_hyphen m"
    and len: "length m \<le> 61"
    by (auto simp: list_all_iff is_alpha_alnum is_alnum_hyphen)
  from m len have "m \<in> lang (UpTo 61 (Cls is_alnum_hyphen))" unfolding lang_upto_cls by simp
  moreover from z have "[z] \<in> lang (Cls is_alnum)" by simp
  ultimately have "m @ [z] \<in> lang (Cat (UpTo 61 (Cls is_alnum_hyphen)) (Cls is_alnum))"
    unfolding in_lang_Cat by blast
  then have "m @ [z] \<in> lang (Opt (Cat (UpTo 61 (Cls is_alnum_hyphen)) (Cls is_alnum)))"
    by (simp add: Opt_def)
  with a show ?thesis unfolding d label_re_def lang_cat_cls by blast
qed

lemma domain_in_lang:
  assumes "2 \<le> length d1" and "length d1 \<le> 63" and "list_all is_alpha d1"
    and "2 \<le> length d2" and "list_all is_alpha d2"
  shows "d1 @ CHR ''.'' # d2 \<in> lang domain_re"
proof -
  have "d1 @ [CHR ''.''] \<in> lang (Cat label_re (Lit (CHR ''.'')))"
    unfolding in_lang_Cat lang_Lit using label_in_lang [OF assms(1-3)] by blast
  moreover have "[] \<in> lang (Star (Cat label_re (Lit (CHR ''.''))))"
    by (simp add: lang_star.star_nil)
  ultimately have "(d1 @ [CHR ''.'']) @ [] \<in> lang (Plus (Cat label_re (Lit (CHR ''.''))))"
    unfolding Plus_def in_lang_Cat by blast
  moreover from assms(4,5)
  have "d2 \<in> lang (Cat (Cls is_alpha) (Cat (Cls is_alpha) (Star (Cls is_alpha))))"
    unfolding lang_two_star by simp
  ultimately have "((d1 @ [CHR ''.'']) @ []) @ d2 \<in> lang domain_re"
    unfolding domain_re_def in_lang_Cat [of _ "Plus (Cat label_re (Lit (CHR ''.'')))"] by blast
  then show ?thesis by simp
qed

section \<open>Addresses of the plain shape\<close>

lemma at_splits_none: "CHR ''@'' \<notin> set d \<Longrightarrow> at_splits d = []"
  by (induction d) auto

lemma at_splits_single:
  "CHR ''@'' \<notin> set l \<Longrightarrow> CHR ''@'' \<notin> set d \<Longrightarrow> at_splits (l @ CHR ''@'' # d) = [(l, d)]"
  by (induction l) (auto simp: at_splits_none)

lemma EMAIL_REGEX_match_single:
  assumes "CHR ''@'' \<notin> set l" and "CHR ''@'' \<notin> set d" and "d \<noteq> []" and "last d \<noteq> CHR 0x0A"
    and "l \<in> lang local_re" and "d \<in> lang domain_re"
  shows "EMAIL_REGEX_match (l @ CHR ''@'' # d) = Some (l, d)"
proof -
  from assms(3,4) have "dollar_subjects (l @ CHR ''@'' # d) = [l @ CHR ''@'' # d]"
    by (simp add: dollar_subjects_def)
  then show ?thesis
    using assms(5,6)
    by (simp add: EMAIL_REGEX_match_def at_splits_single [OF assms(1,2)] fullmatch_lang)
qed

lemma dropWhile_rev_last: "t \<noteq> [] \<Longrightarrow> \<not> P (last t) \<Longrightarrow> dropWhile P (rev t) = rev t"
  by (cases t rule: rev_cases) simp_all

lemma strip_id:
  assumes "t \<noteq> []" and "\<not> isspace (hd t)" and "\<not> isspace (last t)"
  shows "strip t = t"
proof -
  from assms(1,2) have "dropWhile isspace t = t" by (cases t) simp_all
  moreover from assms(1,3) have "dropWhile isspace (rev t) = rev t"
    by (rule dropWhile_rev_last)
  ultimately show ?thesis by (simp add: strip_def)
qed

lemma strip_line_feed:
  assumes "t \<noteq> []" and "\<not> isspace (hd t)" and "\<not> isspace (last t)"
  shows "strip (t @ [CHR 0x0A]) = t"
proof -
  from assms(1,2) have "dropWhile isspace (t @ [CHR 0x0A]) = t @ [CHR 0x0A]" by (cases t) simp_all
  moreover have "isspace (CHR 0x0A)" by (simp add: isspace_def)
  moreover from assms(1,3) have "dropWhile isspace (rev t) = rev t"
    by (rule dropWhile_rev_last)
  ultimately show ?thesis by (simp add: strip_def)
qed

lemma startswith_Cons_hd: "startswith s (a # bs) \<Longrightarrow> s \<noteq> [] \<and> hd s = a"
  by (cases s) simp_all

lemma str_in_Cons_mem: "str_in (a # bs) s \<Longrightarrow> a \<in> set s"
  by (induction s) (auto dest: startswith_Cons_hd)

lemma str_in_append_skip: "a \<notin> set xs \<Longrightarrow> str_in (a # bs) (xs @ ys) = str_in (a # bs) ys"
  by (induction xs) auto

lemma takeWhile_until: "c \<notin> set xs \<Longrightarrow> takeWhile (\<lambda>x. x \<noteq> c) (xs @ c # ys) = xs"
  by (induction xs) auto

lemma dropWhile_until: "c \<notin> set xs \<Longrightarrow> dropWhile (\<lambda>x. x \<noteq> c) (xs @ c # ys) = c # ys"
  by (induction xs) auto

lemma rsplit1_single:
  assumes "c \<notin> set d"
  shows "rsplit1 (l @ c # d) c = [l, d]"
proof -
  let ?P = "\<lambda>x. x \<noteq> c"
  have r: "rev (l @ c # d) = rev d @ c # rev l" by simp
  from assms have "takeWhile ?P (rev d @ c # rev l) = rev d"
    by (simp add: takeWhile_until)
  moreover from assms have "dropWhile ?P (rev d @ c # rev l) = c # rev l"
    by (simp add: dropWhile_until)
  ultimately show ?thesis unfolding rsplit1_def r by simp
qed

lemma list_all_alnum_notin:
  "list_all is_alnum w \<Longrightarrow>
     CHR ''@'' \<notin> set w \<and> CHR ''.'' \<notin> set w \<and> CHR '' '' \<notin> set w \<and> CHR 0x0A \<notin> set w"
  using not_alnum_special by (auto simp: list_all_iff)

lemma list_all_alpha_alnum: "list_all is_alpha w \<Longrightarrow> list_all is_alnum w"
  by (auto simp: list_all_iff is_alpha_alnum)

lemma simple_address_format:
  assumes l: "l \<noteq> []" "list_all is_alnum l"
    and d1: "2 \<le> length d1" "length d1 \<le> 63" "list_all is_alpha d1"
    and d2: "2 \<le> length d2" "list_all is_alpha d2"
    and strip: "strip s0 = l @ CHR ''@'' # d1 @ CHR ''.'' # d2"
    and len: "length s0 \<le> 254" "length l \<le> 64"
  shows "\<exists>W. validate_format_str s0 = (True, [], W)"
proof -
  let ?d = "d1 @ CHR ''.'' # d2"
  let ?t = "l @ CHR ''@'' # ?d"
  note nl = list_all_alnum_notin [OF l(2)]
  note n1 = list_all_alnum_notin [OF list_all_alpha_alnum [OF d1(3)]]
  note n2 = list_all_alnum_notin [OF list_all_alpha_alnum [OF d2(2)]]
  from d1(1) obtain a1 r1 where d1': "d1 = a1 # r1" by (cases d1) auto
  from d2(1) obtain a2 r2 where d2': "d2 = a2 # r2" by (cases d2) auto
  from d2(1) have d2ne: "d2 \<noteq> []" by auto
  from n1 d1' have a1: "a1 \<noteq> CHR ''.''" by auto
  from n2 d2' have a2: "a2 \<noteq> CHR ''.''" by auto
  from n2 d2ne have "last d2 \<noteq> CHR 0x0A" using last_in_set [OF d2ne] by metis
  then have lastd: "last ?d \<noteq> CHR 0x0A" using d2ne by simp
  have at_d: "CHR ''@'' \<notin> set ?d" using n1 n2 by simp
  have m: "EMAIL_REGEX_match ?t = Some (l, ?d)"
    by (rule EMAIL_REGEX_match_single [OF _ at_d _ lastd local_part_in_lang [OF l]
          domain_in_lang [OF d1 d2]]) (use nl in simp_all)
  have dots: "\<not> str_in ''..'' ?t"
  proof
    assume "str_in ''..'' ?t"
    then have "str_in ''..'' ((l @ CHR ''@'' # d1) @ CHR ''.'' # d2)" by simp
    then have "str_in ''..'' (CHR ''.'' # d2)"
      using nl n1 by (subst (asm) str_in_append_skip) simp_all
    then have "str_in ''..'' d2" using a2 d2' by simp
    then show False using n2 by (auto dest: str_in_Cons_mem)
  qed
  have spaces: "\<not> str_in '' '' ?t"
    using nl n1 n2 by (auto dest: str_in_Cons_mem)
  have count: "str_count ?t (CHR ''@'') = 1"
    using nl n1 n2 by (auto simp: str_count_def filter_empty_conv)
  have at_dot: "\<not> str_in ''@.'' ?t"
  proof
    assume "str_in ''@.'' ?t"
    then have "str_in ''@.'' (CHR ''@'' # ?d)"
      using nl by (subst (asm) str_in_append_skip) simp_all
    then have "str_in ''@.'' ?d" using a1 d1' by simp
    then show False using at_d by (blast dest: str_in_Cons_mem)
  qed
  show ?thesis
    unfolding validate_format_str_def Let_def strip m
    using dots spaces count at_dot len
    by (simp add: MAX_EMAIL_LENGTH_def MAX_LOCAL_LENGTH_def)
qed

lemma simple_address_not_space:
  assumes "l \<noteq> []" "list_all is_alnum l" "d2 \<noteq> []" "list_all is_alpha d2"
  shows "\<not> isspace (hd (l @ CHR ''@'' # d1 @ CHR ''.'' # d2))"
    and "\<not> isspace (last (l @ CHR ''@'' # d1 @ CHR ''.'' # d2))"
proof -
  from assms(1,2) have "is_alnum (hd l)" by (cases l) simp_all
  with assms(1) show "\<not> isspace (hd (l @ CHR ''@'' # d1 @ CHR ''.'' # d2))"
    by (auto dest: isspace_not_alnum)
  from assms(3,4) have "is_alpha (last d2)"
    using last_in_set [OF assms(3)] by (auto simp: list_all_iff)
  with assms(3) show "\<not> isspace (last (l @ CHR ''@'' # d1 @ CHR ''.'' # d2))"
    by (auto dest: isspace_not_alnum is_alpha_alnum)
qed

section \<open>The match and its groups\<close>

text \<open>
  A domain holds no \<open>@\<close>, so the cut that \<open>EMAIL_REGEX_match\<close> finds is the only one, at
  the last \<open>@\<close>; and it finds one exactly when the whole pattern matches.
\<close>

lemma over_cls: "(\<And>c. P c \<Longrightarrow> Q c) \<Longrightarrow> {[c] | c. P c} \<subseteq> {w. list_all Q w}"
  by auto

lemma over_cat:
  "A \<subseteq> {w. list_all Q w} \<Longrightarrow> B \<subseteq> {w. list_all Q w} \<Longrightarrow> lang_cat A B \<subseteq> {w. list_all Q w}"
  by (auto simp: lang_cat_def)

lemma over_star:
  assumes "A \<subseteq> {w. list_all Q w}"
  shows "lang_star A \<subseteq> {w. list_all Q w}"
proof
  fix w assume "w \<in> lang_star A"
  then have "list_all Q w" using assms by induction auto
  then show "w \<in> {w. list_all Q w}" by simp
qed

lemma over_upto:
  "A \<subseteq> {w. list_all Q w} \<Longrightarrow> lang_upto n A \<subseteq> {w. list_all Q w}"
proof (induction n)
  case 0
  show ?case by simp
next
  case (Suc n)
  from over_cat [OF Suc.prems Suc.IH [OF Suc.prems]] show ?case by simp
qed

lemma domain_chars:
  "lang domain_re \<subseteq> {w. list_all (\<lambda>c. is_alnum_hyphen c \<or> c = CHR ''.'') w}"
  unfolding domain_re_def label_re_def Plus_def Opt_def Lit_def lang.simps
  by (intro over_cat over_star over_upto over_cls Un_least)
     (auto simp: is_alnum_hyphen_def is_alnum_def)

lemma domain_no_at: "d \<in> lang domain_re \<Longrightarrow> CHR ''@'' \<notin> set d"
proof
  assume "d \<in> lang domain_re" and "CHR ''@'' \<in> set d"
  with domain_chars have "is_alnum_hyphen (CHR ''@'') \<or> CHR ''@'' = CHR ''.''"
    by (auto simp: list_all_iff)
  moreover have "\<not> is_alnum_hyphen (CHR ''@'')" by code_simp
  ultimately show False by simp
qed

lemma fullmatch_EMAIL_REGEX:
  "fullmatch EMAIL_REGEX u \<longleftrightarrow>
     (\<exists>(l, d) \<in> set (at_splits u). fullmatch local_re l \<and> fullmatch domain_re d)"
proof -
  have "u \<in> lang EMAIL_REGEX \<longleftrightarrow>
          (\<exists>l d. u = l @ CHR ''@'' # d \<and> l \<in> lang local_re \<and> d \<in> lang domain_re)"
    unfolding EMAIL_REGEX_def in_lang_Cat lang_Lit by auto
  then show ?thesis by (auto simp: fullmatch_lang at_splits_iff)
qed

lemma EMAIL_REGEX_match_iff: "EMAIL_REGEX_match s \<noteq> None \<longleftrightarrow> re_match EMAIL_REGEX s"
  unfolding EMAIL_REGEX_match_def re_match_def
  by (auto simp: find_None_iff list_ex_iff fullmatch_EMAIL_REGEX)

lemma EMAIL_REGEX_match_last_at:
  assumes "EMAIL_REGEX_match s = Some (l, d)"
  shows "CHR ''@'' \<notin> set d \<and> (s = l @ CHR ''@'' # d \<or> s = l @ CHR ''@'' # d @ [CHR 0x0A])"
proof -
  from assms have p: "(l, d) \<in> set (concat (map at_splits (dollar_subjects s)))"
    and m: "fullmatch domain_re d"
    unfolding EMAIL_REGEX_match_def by (auto dest: find_Some_set)
  from p obtain u where u: "u \<in> set (dollar_subjects s)" and "(l, d) \<in> set (at_splits u)"
    by auto
  then have "u = l @ CHR ''@'' # d" by (simp add: at_splits_iff)
  moreover from u have "s = u \<or> s = u @ [CHR 0x0A]"
    by (auto simp: dollar_subjects_def split: if_splits) (metis append_butlast_last_id)
  moreover from m have "CHR ''@'' \<notin> set d" by (simp add: fullmatch_lang domain_no_at)
  ultimately show ?thesis by auto
qed

section \<open>Properties of the validator\<close>

text \<open>
  Claim C1. For every input and every configuration of the validator, \<open>mx_valid\<close> of the
  result is not \<open>None\<close> only if format validation succeeded and MX checking is enabled;
  and for an input whose format is invalid \<open>mx_valid\<close> is \<open>None\<close>, whatever service is
  configured.
\<close>

theorem mx_valid_gated:
  "(mx_valid (fst (validate v e)) \<noteq> None \<longrightarrow> fst (validate_format e) \<and> check_mx v) \<and>
   (\<not> fst (validate_format e) \<longrightarrow> mx_valid (fst (validate v e)) = None)"
  by (auto simp: validate_def split: prod.splits pyval.splits if_splits)

theorem mx_valid_gated_witness:
  "mx_valid (fst (validate \<lparr>check_mx = True,
       dns_service = Some (MockDNSService [''gmail.com'' \<mapsto> True] [])\<rparr> (PStr ''user@gmail.com''))) \<noteq> None \<and>
   (fst (validate_format (PStr ''user@gmail.com'')) \<and>
    check_mx \<lparr>check_mx = True, dns_service = Some (MockDNSService [''gmail.com'' \<mapsto> True] [])\<rparr>) \<and>
   \<not> fst (validate_format (PStr ''invalid-email'')) \<and>
   mx_valid (fst (validate \<lparr>check_mx = True,
       dns_service = Some (MockDNSService [''gmail.com'' \<mapsto> True] [])\<rparr> (PStr ''invalid-email''))) = None"
proof -
  let ?v = "\<lparr>check_mx = True, dns_service = Some (MockDNSService [''gmail.com'' \<mapsto> True] [])\<rparr>"
  have h1: "mx_valid (fst (validate ?v (PStr ''user@gmail.com''))) \<noteq> None"
    by code_simp
  have h2: "\<not> fst (validate_format (PStr ''invalid-email''))"
    by code_simp
  from h1 mx_valid_gated [of ?v "PStr ''user@gmail.com''"]
  have c1: "fst (validate_format (PStr ''user@gmail.com'')) \<and> check_mx ?v"
    by blast
  from h2 mx_valid_gated [of ?v "PStr ''invalid-email''"]
  have c2: "mx_valid (fst (validate ?v (PStr ''invalid-email''))) = None"
    by blast
  from h1 c1 h2 c2 show ?thesis by blast
qed




text \<open>
  Claim C4. With MX checking enabled, a valid format and no DNS service configured,
  \<open>validate\<close> appends the error "DNS service not configured for MX record checking" to the
  (empty) list of format errors, leaves \<open>mx_valid\<close> at \<open>None\<close>, and still returns
  \<open>is_valid = True\<close>.
\<close>

theorem no_dns_service_still_valid:
  "fst (validate_format e) \<Longrightarrow> check_mx v \<Longrightarrow> dns_service v = None \<Longrightarrow>
     validate v e =
       (\<lparr>is_valid = True, email = e,
         errors = fst (snd (validate_format e)) @ [''DNS service not configured for MX record checking''],
         warnings = snd (snd (validate_format e)), mx_valid = None\<rparr>, v) \<and>
     errors (fst (validate v e)) = [''DNS service not configured for MX record checking'']"
proof -
  assume fv: "fst (validate_format e)" and mx: "check_mx v" and svc: "dns_service v = None"
  from fv obtain s where e: "e = PStr s" by (auto dest: format_valid_is_str)
  from fv format_valid_no_errors [OF fv] obtain W where f: "validate_format e = (True, [], W)"
    by (cases "validate_format e") auto
  from svc have c: "validator_check_mx_record v s =
      ((None, [''DNS service not configured for MX record checking'']), v)"
    by (simp add: validator_check_mx_record_def)
  from f have f': "validate_format (PStr s) = (True, [], W)" by (simp add: e)
  show ?thesis
    using mx unfolding e by (simp add: validate_def f' c)
qed

theorem no_dns_service_still_valid_witness:
  "fst (validate_format (PStr ''user@example.com'')) \<and>
   check_mx \<lparr>check_mx = True, dns_service = None\<rparr> \<and>
   dns_service \<lparr>check_mx = True, dns_service = None\<rparr> = None \<and>
   is_valid (fst (validate \<lparr>check_mx = True, dns_service = None\<rparr> (PStr ''user@example.com''))) \<and>
   mx_valid (fst (validate \<lparr>check_mx = True, dns_service = None\<rparr> (PStr ''user@example.com''))) = None \<and>
   errors (fst (validate \<lparr>check_mx = True, dns_service = None\<rparr> (PStr ''user@example.com'')))
     = [''DNS service not configured for MX record checking'']"
proof -
  let ?v = "\<lparr>check_mx = True, dns_service = None\<rparr>"
  have h1: "fst (validate_format (PStr ''user@example.com''))" by code_simp
  have h2: "check_mx ?v" by simp
  have h3: "dns_service ?v = None" by simp
  note r = no_dns_service_still_valid [OF h1 h2 h3]
  have "is_valid (fst (validate ?v (PStr ''user@example.com'')))"
    and "mx_valid (fst (validate ?v (PStr ''user@example.com''))) = None"
    by (simp_all add: r [THEN conjunct1])
  moreover note r [THEN conjunct2]
  ultimately show ?thesis using h1 by simp
qed

text \<open>
  Claim C5. With MX checking enabled and the stand-in resolver configured with
  \<open>{"no-mx.test": False}\<close>, \<open>validate("user@no-mx.test")\<close> returns \<open>mx_valid = False\<close> and
  \<open>is_valid = False\<close>, the MX step appends no error (the error list is empty), and the
  warnings are the single message "No MX record found for domain".
\<close>

theorem no_mx_record_scenario:
  "fst (validate \<lparr>check_mx = True, dns_service = Some (MockDNSService [''no-mx.test'' \<mapsto> False] [])\<rparr>
         (PStr ''user@no-mx.test'')) =
     \<lparr>is_valid = False, email = PStr ''user@no-mx.test'', errors = [],
      warnings = [''No MX record found for domain''], mx_valid = Some False\<rparr>"
  by code_simp

text \<open>
  Claim C8. For every input and every configuration, the \<open>email\<close> field of the result is
  the input as it was received: the stripped string is local to the format validator.
\<close>

theorem email_field_is_input: "email (fst (validate v e)) = e"
  by (simp add: validate_def split: prod.splits)

text \<open>
  Claim C9. For every falsy input (among them \<open>None\<close>, \<open>0\<close>, \<open>False\<close>, the empty string and
  the empty list) and every configuration, \<open>validate\<close> returns \<open>is_valid = False\<close>, the
  errors exactly \<open>["Email address is empty"]\<close>, no warnings and \<open>mx_valid = None\<close>, and
  leaves the validator as it was; no error naming the type is produced.
\<close>

theorem falsy_input_is_empty:
  "\<not> truthy e \<Longrightarrow>
     validate v e =
       (\<lparr>is_valid = False, email = e, errors = [''Email address is empty''], warnings = [],
         mx_valid = None\<rparr>, v)"
  by (simp add: validate_def validate_format_def)

theorem falsy_input_is_empty_witness:
  "(\<not> truthy PNone \<and> \<not> truthy (PInt 0) \<and> \<not> truthy (PBool False) \<and> \<not> truthy (PStr [])
     \<and> \<not> truthy (PList [])) \<and>
   map (\<lambda>e. errors (fst (validate \<lparr>check_mx = True, dns_service = None\<rparr> e)))
       [PNone, PInt 0, PBool False, PStr [], PList []]
     = replicate 5 [''Email address is empty''] \<and>
   map (\<lambda>e. is_valid (fst (validate \<lparr>check_mx = True, dns_service = None\<rparr> e)))
       [PNone, PInt 0, PBool False, PStr [], PList []]
     = replicate 5 False \<and>
   map (\<lambda>e. mx_valid (fst (validate \<lparr>check_mx = True, dns_service = None\<rparr> e)))
       [PNone, PInt 0, PBool False, PStr [], PList []]
     = replicate 5 None"
proof -
  let ?v = "\<lparr>check_mx = True, dns_service = None\<rparr>"
  have h: "\<not> truthy PNone" "\<not> truthy (PInt 0)" "\<not> truthy (PBool False)" "\<not> truthy (PStr [])"
    "\<not> truthy (PList [])" by simp_all
  note r = falsy_input_is_empty [OF h(1), of ?v] falsy_input_is_empty [OF h(2), of ?v]
    falsy_input_is_empty [OF h(3), of ?v] falsy_input_is_empty [OF h(4), of ?v]
    falsy_input_is_empty [OF h(5), of ?v]
  show ?thesis using h r by (simp add: numeral_eq_Suc)
qed

text \<open>
  Claim C10. Trimming and domain extraction diverge: with MX checking enabled and the
  stand-in resolver configured with \<open>{"example.com": True}\<close>, the input
  \<open>"user@example.com "\<close> (one trailing space) passes format validation with the
  whitespace warning, the stand-in is asked about the domain \<open>"example.com "\<close> with the
  space, answers \<open>False\<close>, and the result has \<open>mx_valid = False\<close> and \<open>is_valid = False\<close>.
\<close>

theorem trailing_space_mx_divergence:
  "validate_format (PStr ''user@example.com '') =
     (True, [], [''Email contains leading or trailing whitespace'']) \<and>
   map_option call_history
     (dns_service (snd (validate
        \<lparr>check_mx = True, dns_service = Some (MockDNSService [''example.com'' \<mapsto> True] [])\<rparr>
        (PStr ''user@example.com '')))) = Some [(''check_mx_record'', ''example.com '')] \<and>
   fst (check_mx_record (MockDNSService [''example.com'' \<mapsto> True] []) ''example.com '')
     = Returns False \<and>
   fst (validate
        \<lparr>check_mx = True, dns_service = Some (MockDNSService [''example.com'' \<mapsto> True] [])\<rparr>
        (PStr ''user@example.com '')) =
     \<lparr>is_valid = False, email = PStr ''user@example.com '', errors = [],
      warnings = [''Email contains leading or trailing whitespace'',
                  ''No MX record found for domain''],
      mx_valid = Some False\<rparr>"
  by code_simp

text \<open>
  Claim C7. For every list of candidates and every configuration, \<open>validate_batch\<close>
  returns a list as long as its input, and that list is the input mapped through
  \<open>validate\<close> on the validator as it was before the batch: element \<open>i\<close> of the result is
  \<open>validate(L[i])\<close>, in the order of the input, however the earlier items went. Every
  service of the model answers as a function of the domain alone; what the stand-in
  records between two items does not reach the results.
\<close>

theorem validate_batch_is_map:
  "length (fst (validate_batch v L)) = length L \<and>
   fst (validate_batch v L) = map (\<lambda>e. fst (validate v e)) L"
  using validate_batch_same_result [of v v L] by simp

text \<open>
  Claim C6. Whenever the MX lookup runs (the format of the string is valid, MX checking
  is enabled, a service is configured), the one call of \<open>check_mx_record\<close> is made with
  the part \<open>d\<close> of the original, unstripped string that follows its last \<open>@\<close>: the string
  is \<open>l @ d\<close> and \<open>d\<close> holds no \<open>@\<close>. The service of the validator afterwards is the service
  after that call, \<open>mx_valid\<close> is read from the reply to that call, and the stand-in has
  recorded exactly \<open>('check_mx_record', d)\<close> behind its earlier history.
\<close>

theorem mx_lookup_domain:
  assumes "fst (validate_format (PStr s))" and "check_mx v" and "dns_service v = Some svc"
  shows "\<exists>l d. s = l @ CHR ''@'' # d \<and> CHR ''@'' \<notin> set d \<and>
           dns_service (snd (validate v (PStr s))) = Some (snd (check_mx_record svc d)) \<and>
           mx_valid (fst (validate v (PStr s))) =
             (case fst (check_mx_record svc d) of Returns b \<Rightarrow> Some b | Raises m \<Rightarrow> None) \<and>
           (\<forall>rs h. svc = MockDNSService rs h \<longrightarrow>
              dns_service (snd (validate v (PStr s))) =
                Some (MockDNSService rs (h @ [(''check_mx_record'', d)])))"
proof -
  let ?d = "last (rsplit1 s (CHR ''@''))"
  from format_valid_has_at [OF assms(1)] obtain l
    where s: "s = l @ CHR ''@'' # ?d" and d: "CHR ''@'' \<notin> set ?d"
    using rsplit1_last [of "CHR ''@''" s] by blast
  have c: "validator_check_mx_record v s =
      (case check_mx_record svc ?d of
         (Returns b, svc') \<Rightarrow> ((Some b, []), v\<lparr>dns_service := Some svc'\<rparr>)
       | (Raises msg, svc') \<Rightarrow> ((None, [''DNS lookup failed: '' @ msg]), v\<lparr>dns_service := Some svc'\<rparr>))"
    using assms(3) by (simp add: validator_check_mx_record_def)
  have 1: "dns_service (snd (validate v (PStr s))) = Some (snd (check_mx_record svc ?d))"
    by (simp add: validate_with_mx [OF assms(1,2)] c split: prod.splits mx_reply.splits)
  have 2: "mx_valid (fst (validate v (PStr s))) =
             (case fst (check_mx_record svc ?d) of Returns b \<Rightarrow> Some b | Raises m \<Rightarrow> None)"
    by (simp add: validate_with_mx [OF assms(1,2)] c split: prod.splits mx_reply.splits)
  have 3: "\<forall>rs h. svc = MockDNSService rs h \<longrightarrow>
              dns_service (snd (validate v (PStr s))) =
                Some (MockDNSService rs (h @ [(''check_mx_record'', ?d)]))"
    using 1 by auto
  from s d 1 2 3 show ?thesis by blast
qed

theorem mx_lookup_domain_witness:
  "fst (validate_format (PStr ''user@example.com '')) \<and>
   check_mx \<lparr>check_mx = True, dns_service = Some (MockDNSService [''example.com'' \<mapsto> True] [])\<rparr> \<and>
   dns_service \<lparr>check_mx = True, dns_service = Some (MockDNSService [''example.com'' \<mapsto> True] [])\<rparr>
     = Some (MockDNSService [''example.com'' \<mapsto> True] []) \<and>
   (\<exists>l d. ''user@example.com '' = l @ CHR ''@'' # d \<and> CHR ''@'' \<notin> set d \<and>
      dns_service (snd (validate
          \<lparr>check_mx = True, dns_service = Some (MockDNSService [''example.com'' \<mapsto> True] [])\<rparr>
          (PStr ''user@example.com ''))) =
        Some (MockDNSService [''example.com'' \<mapsto> True] [(''check_mx_record'', d)]))"
proof -
  let ?svc = "MockDNSService [''example.com'' \<mapsto> True] []"
  let ?v = "\<lparr>check_mx = True, dns_service = Some ?svc\<rparr>"
  have h1: "fst (validate_format (PStr ''user@example.com ''))" by code_simp
  have h2: "check_mx ?v" by simp
  have h3: "dns_service ?v = Some ?svc" by simp
  from mx_lookup_domain [OF h1 h2 h3] obtain l d
    where "''user@example.com '' = l @ CHR ''@'' # d" and "CHR ''@'' \<notin> set d"
      and "\<forall>rs h. ?svc = MockDNSService rs h \<longrightarrow>
             dns_service (snd (validate ?v (PStr ''user@example.com ''))) =
               Some (MockDNSService rs (h @ [(''check_mx_record'', d)]))"
    by blast
  then have "\<exists>l d. ''user@example.com '' = l @ CHR ''@'' # d \<and> CHR ''@'' \<notin> set d \<and>
      dns_service (snd (validate ?v (PStr ''user@example.com ''))) =
        Some (MockDNSService [''example.com'' \<mapsto> True] [(''check_mx_record'', d)])"
    by force
  with h1 h2 h3 show ?thesis by blast
qed

text \<open>
  Claim C2. Every string that matches \<open>^[A-Za-z0-9]+@[A-Za-z]{2,63}\.[A-Za-z]{2,}$\<close> (as
  \<open>re.match\<close> matches, so also with one line feed behind the address), has at most 254
  characters and a local part, the first element of \<open>rsplit('@', 1)\<close>, of at most 64, is
  valid for a validator with MX checking disabled: \<open>is_valid(s)\<close> is true,
  \<open>validate(s).is_valid\<close> is true and the errors are empty. The bound of 255 on the domain
  is not needed; it follows from the bound on the whole string.
\<close>

theorem simple_address_is_valid:
  assumes "re_match SIMPLE_ADDRESS_REGEX s"
    and "length s \<le> 254"
    and "length (hd (rsplit1 s (CHR ''@''))) \<le> 64"
    and "\<not> check_mx v"
  shows "fst (validator_is_valid v (PStr s)) \<and>
         is_valid (fst (validate v (PStr s))) \<and> errors (fst (validate v (PStr s))) = []"
proof -
  from assms(1) obtain t where t: "t \<in> lang SIMPLE_ADDRESS_REGEX"
    and st: "s = t \<or> s = t @ [CHR 0x0A]"
    unfolding re_match_def dollar_subjects_def
    by (auto simp: fullmatch_lang list_ex_iff split: if_splits)
       (metis append_butlast_last_id)
  from simple_address_shape [OF t] obtain l d1 d2
    where t': "t = l @ CHR ''@'' # d1 @ CHR ''.'' # d2"
      and l: "l \<noteq> []" "list_all is_alnum l"
      and d1: "2 \<le> length d1" "length d1 \<le> 63" "list_all is_alpha d1"
      and d2: "2 \<le> length d2" "list_all is_alpha d2"
    by blast
  from d2(1) have d2ne: "d2 \<noteq> []" by auto
  note ns = simple_address_not_space [OF l d2ne d2(2), of d1]
  have tne: "t \<noteq> []" using t' by simp
  have strip: "strip s = l @ CHR ''@'' # d1 @ CHR ''.'' # d2"
    using st strip_id [OF tne] strip_line_feed [OF tne] ns unfolding t' by auto
  have at: "CHR ''@'' \<notin> set (d1 @ CHR ''.'' # d2)" "CHR ''@'' \<notin> set ((d1 @ CHR ''.'' # d2) @ [CHR 0x0A])"
    using list_all_alnum_notin [OF list_all_alpha_alnum [OF d1(3)]]
      list_all_alnum_notin [OF list_all_alpha_alnum [OF d2(2)]] by simp_all
  have "hd (rsplit1 s (CHR ''@'')) = l"
    using st rsplit1_single [OF at(1), of l] rsplit1_single [OF at(2), of l] unfolding t' by auto
  with assms(3) have len: "length l \<le> 64" by simp
  from simple_address_format [OF l d1 d2 strip assms(2) len]
  obtain W where "validate_format_str s = (True, [], W)" by blast
  moreover have "s \<noteq> []" using st tne by auto
  ultimately have f: "validate_format (PStr s) = (True, [], W)"
    by (simp add: validate_format_def)
  from assms(4) have "validate v (PStr s) =
      (\<lparr>is_valid = True, email = PStr s, errors = [], warnings = W, mx_valid = None\<rparr>, v)"
    by (simp add: validate_skip_mx f)
  then show ?thesis by (simp add: validator_is_valid_def)
qed

theorem simple_address_is_valid_witness:
  "re_match SIMPLE_ADDRESS_REGEX ''user@example.com'' \<and>
   length ''user@example.com'' \<le> 254 \<and>
   length (hd (rsplit1 ''user@example.com'' (CHR ''@''))) \<le> 64 \<and>
   \<not> check_mx \<lparr>check_mx = False, dns_service = None\<rparr> \<and>
   fst (validator_is_valid \<lparr>check_mx = False, dns_service = None\<rparr> (PStr ''user@example.com'')) \<and>
   is_valid (fst (validate \<lparr>check_mx = False, dns_service = None\<rparr> (PStr ''user@example.com''))) \<and>
   errors (fst (validate \<lparr>check_mx = False, dns_service = None\<rparr> (PStr ''user@example.com''))) = []"
proof -
  have h1: "re_match SIMPLE_ADDRESS_REGEX ''user@example.com''" by code_simp
  have h2: "length ''user@example.com'' \<le> 254" by simp
  have h3: "length (hd (rsplit1 ''user@example.com'' (CHR ''@''))) \<le> 64" by code_simp
  have h4: "\<not> check_mx \<lparr>check_mx = False, dns_service = None\<rparr>" by simp
  from simple_address_is_valid [OF h1 h2 h3 h4] h1 h2 h3 h4 show ?thesis by blast
qed

end
